theory Spec2Isabelle
  imports Main "HOL-Library.Multiset"
begin

section \<open>Strings\<close>

text \<open>
  A Python \<open>str\<close> is modelled as a \<open>string\<close>; a character stands for the code point
  with the same number, so the model covers text whose code points are below 256.
  \<open>str.strip()\<close> without argument removes the characters for which \<open>str.isspace()\<close>
  holds; below 256 these are the code points 9 to 13, 28 to 32, 133 and 160.
\<close>

definition is_space :: "char \<Rightarrow> bool" where
  "is_space c =
     (let n = (of_char c :: nat)
      in (9 \<le> n \<and> n \<le> 13) \<or> (28 \<le> n \<and> n \<le> 32) \<or> n = 133 \<or> n = 160)"

definition lstrip :: "string \<Rightarrow> string" where
  "lstrip s = dropWhile is_space s"

definition rstrip :: "string \<Rightarrow> string" where
  "rstrip s = rev (dropWhile is_space (rev s))"

definition strip :: "string \<Rightarrow> string" where
  "strip s = lstrip (rstrip s)"

definition startswith :: "string \<Rightarrow> string \<Rightarrow> bool" where
  "startswith s p = (take (length p) s = p)"

text \<open>
  \<open>s.split(sep)\<close> for a one-character separator: the pieces between the occurrences of
  the separator, never an empty list.
\<close>

fun split_on :: "char \<Rightarrow> string \<Rightarrow> string list" where
  "split_on c [] = [[]]"
| "split_on c (x # xs) =
     (if x = c then [] # split_on c xs
      else (case split_on c xs of
              [] \<Rightarrow> [[x]]
            | p # ps \<Rightarrow> (x # p) # ps))"

text \<open>
  \<open>a, b = s.split(sep, 1)\<close>: with an occurrence of the separator the two targets are
  bound to the text before and after the first one; without, the list has one element
  and the unpacking raises \<open>ValueError\<close>, which is the value \<open>None\<close> here.
\<close>

definition split_first :: "char \<Rightarrow> string \<Rightarrow> (string \<times> string) option" where
  "split_first c s =
     (case dropWhile (\<lambda>x. x \<noteq> c) s of
        [] \<Rightarrow> None
      | _ # rest \<Rightarrow> Some (takeWhile (\<lambda>x. x \<noteq> c) s, rest))"

text \<open>\<open>sep.join(xs)\<close>.\<close>

fun join :: "string \<Rightarrow> string list \<Rightarrow> string" where
  "join sep [] = []"
| "join sep [x] = x"
| "join sep (x # y # ys) = x @ sep @ join sep (y # ys)"

section \<open>Dictionaries\<close>

text \<open>
  A Python dictionary keeps its keys in insertion order, and that order reaches the
  report, so a dictionary is an association list with distinct keys. Assigning to a
  key that is present replaces the value where the key stands; a new key goes last.
\<close>

type_synonym ('k, 'v) dict = "('k \<times> 'v) list"

fun dict_set :: "('k, 'v) dict \<Rightarrow> 'k \<Rightarrow> 'v \<Rightarrow> ('k, 'v) dict" where
  "dict_set [] k v = [(k, v)]"
| "dict_set ((k', v') # d) k v =
     (if k' = k then (k', v) # d else (k', v') # dict_set d k v)"

text \<open>
  \<open>d[k].append(x)\<close> on a \<open>defaultdict(list)\<close>: a missing key is first inserted, last,
  with the empty list.
\<close>

fun dict_append :: "('k, 'v list) dict \<Rightarrow> 'k \<Rightarrow> 'v \<Rightarrow> ('k, 'v list) dict" where
  "dict_append [] k x = [(k, [x])]"
| "dict_append ((k', xs) # d) k x =
     (if k' = k then (k', xs @ [x]) # d else (k', xs) # dict_append d k x)"

section \<open>Logging and the environment\<close>

datatype level = INFO | ERROR

type_synonym logrec = "level \<times> string"

text \<open>
  What the operating system answers is a parameter of the model: whether a path is a
  regular file when \<open>main\<close> validates it, what opening it for reading gives when the
  parser runs (its lines as the file iterator yields them, or an exception), and what
  opening a path for writing and writing the given lines gives. \<open>IOError\<close> is
  \<open>OSError\<close>, so the writer catches every operating-system error; the parser catches
  \<open>FileNotFoundError\<close> alone.
\<close>

datatype os_error = FileNotFoundError | PermissionError | OtherOSError

datatype read_result = Lines "string list" | ReadRaises os_error

datatype write_result = Written | WriteRaises string

record env =
  isfile :: "string \<Rightarrow> bool"
  open_read :: "string \<Rightarrow> read_result"
  open_write :: "string \<Rightarrow> string list \<Rightarrow> write_result"

datatype 'a result = Return 'a | SysExit int | Uncaught os_error

section \<open>parse_group_file\<close>

type_synonym memberships = "(string, string list) dict"

text \<open>The body of the loop over the lines, on the dictionary and the log.\<close>

definition parse_line :: "string \<Rightarrow> memberships \<times> logrec list \<Rightarrow> memberships \<times> logrec list" where
  "parse_line raw st =
     (let line = strip raw in
      if line = [] \<or> startswith line ''#'' then st
      else (case split_first (CHR '':'') line of
              None \<Rightarrow>
                (fst st, snd st @ [(ERROR, ''Invalid line format in group file: '' @ line)])
            | Some (group_name, users_str) \<Rightarrow>
                (let users = [strip user. user \<leftarrow> split_on (CHR '','') users_str, strip user \<noteq> []]
                 in (dict_set (fst st) (strip group_name) users, snd st))))"

fun parse_lines :: "string list \<Rightarrow> memberships \<times> logrec list \<Rightarrow> memberships \<times> logrec list" where
  "parse_lines [] st = st"
| "parse_lines (raw # rest) st = parse_lines rest (parse_line raw st)"

definition parse_group_file :: "env \<Rightarrow> string \<Rightarrow> memberships result \<times> logrec list" where
  "parse_group_file e path =
     (case open_read e path of
        Lines ls \<Rightarrow> (let st = parse_lines ls ([], []) in (Return (fst st), snd st))
      | ReadRaises FileNotFoundError \<Rightarrow>
          (SysExit 1, [(ERROR, ''Group file not found: '' @ path)])
      | ReadRaises err \<Rightarrow> (Uncaught err, []))"

section \<open>analyze_user_groups\<close>

type_synonym user_index = "(string, string list) dict"

fun invert_users :: "string \<Rightarrow> string list \<Rightarrow> user_index \<Rightarrow> user_index" where
  "invert_users grp [] d = d"
| "invert_users grp (user # users) d = invert_users grp users (dict_append d user grp)"

fun invert_groups :: "memberships \<Rightarrow> user_index \<Rightarrow> user_index" where
  "invert_groups [] d = d"
| "invert_groups ((grp, users) # gm) d = invert_groups gm (invert_users grp users d)"

definition analyze_user_groups :: "memberships \<Rightarrow> int \<Rightarrow> user_index" where
  "analyze_user_groups group_memberships min_groups =
     [(user, groups) \<leftarrow> invert_groups group_memberships []. int (length groups) \<ge> min_groups]"

section \<open>write_output\<close>

definition report_line :: "string \<times> string list \<Rightarrow> string" where
  "report_line ug = ''User: '' @ fst ug @ '', Groups: '' @ join '', '' (snd ug)"

record effects =
  stdout :: "string list"
  logged :: "logrec list"
  file_written :: "(string \<times> string list) option"

text \<open>
  \<open>stdout\<close> holds the strings handed to \<open>print\<close>, \<open>file_written\<close> the path and the
  lines of a report file that was written to the end. What a failed write leaves on
  disk is the platform's and is not modelled. An output path is used when it is given
  and not the empty string.
\<close>

definition write_output :: "env \<Rightarrow> user_index \<Rightarrow> string option \<Rightarrow> effects" where
  "write_output e user_to_groups output_file =
     (let output_lines = map report_line user_to_groups in
      case output_file of
        None \<Rightarrow> \<lparr>stdout = output_lines, logged = [], file_written = None\<rparr>
      | Some path \<Rightarrow>
          if path = [] then \<lparr>stdout = output_lines, logged = [], file_written = None\<rparr>
          else (case open_write e path output_lines of
                  Written \<Rightarrow>
                    \<lparr>stdout = [],
                     logged = [(INFO, ''Analysis results written to: '' @ path)],
                     file_written = Some (path, output_lines)\<rparr>
                | WriteRaises msg \<Rightarrow>
                    \<lparr>stdout = [],
                     logged = [(ERROR, ''Error writing to output file: '' @ msg)],
                     file_written = None\<rparr>))"

section \<open>main\<close>

record args =
  group_file :: string
  output_arg :: "string option"
  min_groups :: int

definition quiet :: "logrec list \<Rightarrow> effects" where
  "quiet lg = \<lparr>stdout = [], logged = lg, file_written = None\<rparr>"

definition main :: "env \<Rightarrow> args \<Rightarrow> unit result \<times> effects" where
  "main e a =
     (if \<not> isfile e (group_file a) then
        (SysExit 1, quiet [(ERROR, ''Group file does not exist: '' @ group_file a)])
      else if min_groups a \<le> 0 then
        (SysExit 1, quiet [(ERROR, ''Minimum groups must be a positive integer.'')])
      else (case parse_group_file e (group_file a) of
              (Return group_memberships, lg) \<Rightarrow>
                (let users_in_multiple_groups = analyze_user_groups group_memberships (min_groups a);
                     w = write_output e users_in_multiple_groups (output_arg a)
                 in (Return (), w\<lparr>logged := lg @ logged w\<rparr>))
            | (SysExit n, lg) \<Rightarrow> (SysExit n, quiet lg)
            | (Uncaught err, lg) \<Rightarrow> (Uncaught err, quiet lg)))"

text \<open>
  The exit status of the process: 0 when \<open>main\<close> returns, the argument of
  \<open>sys.exit\<close>, and 1 when the interpreter ends on an exception nobody caught.
\<close>

definition exit_status :: "unit result \<Rightarrow> int" where
  "exit_status r = (case r of Return _ \<Rightarrow> 0 | SysExit n \<Rightarrow> n | Uncaught _ \<Rightarrow> 1)"

section \<open>Notions used to state the properties\<close>

text \<open>The value stored under a key, the empty list for a key that is absent.\<close>

definition look :: "('k, 'v list) dict \<Rightarrow> 'k \<Rightarrow> 'v list" where
  "look d k = (case map_of d k of None \<Rightarrow> [] | Some xs \<Rightarrow> xs)"

text \<open>
  Every occurrence of a user in a member list, as a pair of group and user, groups in
  stored order and members left to right.
\<close>

definition occurrences :: "memberships \<Rightarrow> (string \<times> string) list" where
  "occurrences gm = concat (map (\<lambda>(g, us). map (\<lambda>u. (g, u)) us) gm)"

definition groups_of :: "memberships \<Rightarrow> string \<Rightarrow> string list" where
  "groups_of gm u = map fst (filter (\<lambda>p. snd p = u) (occurrences gm))"

text \<open>The elements of a list in the order of their first appearance.\<close>

fun first_seen :: "'a list \<Rightarrow> 'a list" where
  "first_seen [] = []"
| "first_seen (x # xs) = x # filter (\<lambda>y. y \<noteq> x) (first_seen xs)"



text \<open>The example of the source's closing comment, and an environment that holds it.\<close>

definition groups_txt :: "string list" where
  "groups_txt =
     [''admin:user1,user2,user3\<newline>'',
      ''developers:user2,user4\<newline>'',
      ''testers:user3,user4,user5\<newline>'',
      ''support:user1,user5\<newline>'']"

definition groups_txt_env :: env where
  "groups_txt_env =
     \<lparr>isfile = (\<lambda>p. p = ''groups.txt''),
      open_read = (\<lambda>p. if p = ''groups.txt'' then Lines groups_txt
                         else ReadRaises FileNotFoundError),
      open_write = (\<lambda>p ls. Written)\<rparr>"

definition default_args :: args where
  "default_args = \<lparr>group_file = ''groups.txt'', output_arg = None, min_groups = 2\<rparr>"

text \<open>Environments and inputs on which the properties are exercised.\<close>

definition file_env :: "string list \<Rightarrow> write_result \<Rightarrow> env" where
  "file_env ls w =
     \<lparr>isfile = (\<lambda>p. True), open_read = (\<lambda>p. Lines ls), open_write = (\<lambda>p out. w)\<rparr>"

definition unreadable_env :: env where
  "unreadable_env =
     \<lparr>isfile = (\<lambda>p. True), open_read = (\<lambda>p. ReadRaises PermissionError),
      open_write = (\<lambda>p out. Written)\<rparr>"

definition missing_env :: env where
  "missing_env =
     \<lparr>isfile = (\<lambda>p. False), open_read = (\<lambda>p. ReadRaises FileNotFoundError),
      open_write = (\<lambda>p out. Written)\<rparr>"


definition dup_txt :: "string list" where
  "dup_txt = [''g:a\<newline>'', ''g:c\<newline>'', ''h:b\<newline>'']"

definition small_gm :: memberships where
  "small_gm = [(''ops'', [''alice'', ''bob'', ''alice'']), (''dev'', [''bob''])]"

definition out_args :: args where
  "out_args = \<lparr>group_file = ''groups.txt'', output_arg = Some ''report.txt'', min_groups = 2\<rparr>"

definition empty_out_args :: args where
  "empty_out_args = \<lparr>group_file = ''groups.txt'', output_arg = Some [], min_groups = 2\<rparr>"

section \<open>Strings and lines: lemmas\<close>


lemma split_first_Some:
  assumes "split_first c s = Some (a, b)"
  shows "s = a @ c # b" and "c \<notin> set a"
proof -
  from assms obtain x where d: "dropWhile (\<lambda>x. x \<noteq> c) s = x # b"
    and a: "a = takeWhile (\<lambda>x. x \<noteq> c) s"
    by (auto simp: split_first_def split: list.splits)
  from d have "\<not> (hd (dropWhile (\<lambda>x. x \<noteq> c) s) \<noteq> c)"
    using hd_dropWhile[of "\<lambda>x. x \<noteq> c" s] by auto
  with d have "x = c" by simp
  with d a show "s = a @ c # b"
    using takeWhile_dropWhile_id[of "\<lambda>x. x \<noteq> c" s] by simp
  from a show "c \<notin> set a" by (auto dest: set_takeWhileD)
qed

lemma split_on_not_Nil: "split_on c s \<noteq> []"
  by (induction s) (auto split: list.splits)

lemma split_on_pieces: "p \<in> set (split_on c s) \<Longrightarrow> c \<notin> set p"
  by (induction s arbitrary: p) (auto split: list.splits if_splits)

lemma join_split_on: "join [c] (split_on c s) = s"
proof (induction s)
  case Nil
  then show ?case by simp
next
  case (Cons x xs)
  obtain p ps where sp: "split_on c xs = p # ps"
    using split_on_not_Nil[of c xs] by (cases "split_on c xs") auto
  show ?case
  proof (cases "x = c")
    case True
    with Cons sp show ?thesis by simp
  next
    case False
    with Cons sp show ?thesis by (cases ps) auto
  qed
qed


lemma last_dropWhile_keep: "dropWhile P xs \<noteq> [] \<Longrightarrow> last (dropWhile P xs) = last xs"
  by (induction xs) (auto split: if_splits)

lemma set_strip_subset: "set (strip s) \<subseteq> set s"
proof -
  have "set (strip s) \<subseteq> set (rstrip s)"
    unfolding strip_def lstrip_def by (rule set_dropWhileD[THEN subsetI]) 
  also have "\<dots> \<subseteq> set s"
    unfolding rstrip_def using set_dropWhileD[of _ is_space "rev s"] by auto
  finally show ?thesis .
qed




lemma strip_ends:
  assumes "strip s \<noteq> []"
  shows "\<not> is_space (hd (strip s))" and "\<not> is_space (last (strip s))"
proof -
  from assms show "\<not> is_space (hd (strip s))"
    unfolding strip_def lstrip_def by (rule hd_dropWhile)
  let ?r = "rstrip s"
  from assms have ne: "?r \<noteq> []" by (auto simp: strip_def lstrip_def)
  then have "dropWhile is_space (rev s) \<noteq> []" by (simp add: rstrip_def)
  then have "\<not> is_space (hd (dropWhile is_space (rev s)))" by (rule hd_dropWhile)
  then have lr: "\<not> is_space (last ?r)"
    using ne by (simp add: rstrip_def last_rev)
  have "last (dropWhile is_space ?r) = last ?r"
    using assms by (simp add: strip_def lstrip_def last_dropWhile_keep)
  with lr show "\<not> is_space (last (strip s))" by (simp add: strip_def lstrip_def)
qed




section \<open>Inversion: lemmas\<close>

lemma set_first_seen: "set (first_seen xs) = set xs"
  by (induction xs) auto

lemma distinct_first_seen: "distinct (first_seen xs)"
  by (induction xs) auto

lemma first_seen_append:
  "first_seen (xs @ ys) = first_seen xs @ filter (\<lambda>y. y \<notin> set xs) (first_seen ys)"
proof (induction xs)
  case Nil
  then show ?case by simp
next
  case (Cons x xs)
  have "filter (\<lambda>y. y \<noteq> x) (filter (\<lambda>y. y \<notin> set xs) (first_seen ys))
      = filter (\<lambda>y. y \<notin> set (x # xs)) (first_seen ys)"
    by (auto intro: filter_cong)
  with Cons show ?case by simp
qed

lemma keys_dict_append:
  "map fst (dict_append d k x) = (if k \<in> set (map fst d) then map fst d else map fst d @ [k])"
proof (induction d)
  case Nil
  then show ?case by simp
next
  case (Cons p d)
  obtain k' xs where p: "p = (k', xs)" by (cases p)
  show ?case by (cases "k' = k") (simp_all add: p Cons.IH)
qed

lemma look_Nil: "look [] u = []"
  by (simp add: look_def)

lemma look_dict_append:
  "look (dict_append d k x) u = (if u = k then look d u @ [x] else look d u)"
  by (induction d) (auto simp: look_def)

lemma keys_invert_users:
  "map fst (invert_users g us d) = map fst d @ filter (\<lambda>u. u \<notin> set (map fst d)) (first_seen us)"
proof (induction us arbitrary: d)
  case Nil
  then show ?case by simp
next
  case (Cons u us)
  show ?case
  proof (cases "u \<in> set (map fst d)")
    case True
    then have "filter (\<lambda>v. v \<notin> set (map fst d)) (filter (\<lambda>y. y \<noteq> u) (first_seen us))
        = filter (\<lambda>v. v \<notin> set (map fst d)) (first_seen us)"
      by (auto intro: filter_cong)
    with True show ?thesis by (simp add: Cons.IH keys_dict_append)
  next
    case False
    have "filter (\<lambda>v. v \<noteq> u \<and> v \<notin> set (map fst d)) (first_seen us)
        = filter (\<lambda>v. v \<notin> set (map fst d) \<and> v \<noteq> u) (first_seen us)"
      by (auto intro: filter_cong)
    with False show ?thesis by (simp add: Cons.IH keys_dict_append)
  qed
qed

lemma look_invert_users:
  "look (invert_users g us d) u = look d u @ map (\<lambda>_. g) (filter (\<lambda>v. v = u) us)"
  by (induction us arbitrary: d) (auto simp: look_dict_append)

lemma keys_invert_groups:
  "map fst (invert_groups gm d)
     = map fst d @ filter (\<lambda>u. u \<notin> set (map fst d)) (first_seen (map snd (occurrences gm)))"
proof (induction gm arbitrary: d)
  case Nil
  then show ?case by (simp add: occurrences_def)
next
  case (Cons p gm)
  obtain g us where p: "p = (g, us)" by (cases p)
  have occ: "map snd (occurrences (p # gm)) = us @ map snd (occurrences gm)"
    by (simp add: occurrences_def p comp_def)
  let ?ks = "map fst d" and ?rest = "first_seen (map snd (occurrences gm))"
  let ?new = "filter (\<lambda>u. u \<notin> set ?ks) (first_seen us)"
  have "map fst (invert_groups (p # gm) d)
      = (?ks @ ?new) @ filter (\<lambda>u. u \<notin> set (?ks @ ?new)) ?rest"
    by (simp only: p invert_groups.simps Cons.IH keys_invert_users)
  also have "filter (\<lambda>u. u \<notin> set (?ks @ ?new)) ?rest
      = filter (\<lambda>u. u \<notin> set ?ks) (filter (\<lambda>y. y \<notin> set us) ?rest)"
    unfolding filter_filter by (rule filter_cong) (auto simp: set_first_seen)
  finally show ?case
    unfolding occ first_seen_append by simp
qed

lemma groups_of_Cons:
  "groups_of ((g, us) # gm) u = map (\<lambda>_. g) (filter (\<lambda>v. v = u) us) @ groups_of gm u"
  by (simp add: groups_of_def occurrences_def filter_map comp_def)

lemma look_invert_groups:
  "look (invert_groups gm d) u = look d u @ groups_of gm u"
proof (induction gm arbitrary: d)
  case Nil
  then show ?case by (simp add: groups_of_def occurrences_def)
next
  case (Cons p gm)
  obtain g us where p: "p = (g, us)" by (cases p)
  show ?case by (simp add: p Cons.IH look_invert_users groups_of_Cons)
qed

lemma dict_as_keys:
  "distinct (map fst d) \<Longrightarrow> d = map (\<lambda>k. (k, look d k)) (map fst d)"
proof (induction d)
  case Nil
  then show ?case by simp
next
  case (Cons p d)
  obtain k v where p: "p = (k, v)" by (cases p)
  from Cons.prems have nk: "k \<notin> fst ` set d" and dd: "distinct (map fst d)"
    by (auto simp: p)
  have "map (\<lambda>k'. (k', look (p # d) k')) (map fst d) = map (\<lambda>k'. (k', look d k')) (map fst d)"
    using nk by (auto simp: look_def p)
  with Cons.IH[OF dd] show ?case by (simp add: p look_def)
qed

lemma invert_groups_eq:
  "invert_groups gm [] = map (\<lambda>u. (u, groups_of gm u)) (first_seen (map snd (occurrences gm)))"
proof -
  let ?d = "invert_groups gm []"
  have k: "map fst ?d = first_seen (map snd (occurrences gm))"
    by (simp add: keys_invert_groups)
  then have "distinct (map fst ?d)" by (simp add: distinct_first_seen)
  from dict_as_keys[OF this] have "?d = map (\<lambda>u. (u, look ?d u)) (map fst ?d)" .
  also have "\<dots> = map (\<lambda>u. (u, groups_of gm u)) (first_seen (map snd (occurrences gm)))"
    by (simp add: k look_invert_groups look_Nil)
  finally show ?thesis .
qed

lemma analyze_user_groups_eq:
  "analyze_user_groups gm t =
     map (\<lambda>u. (u, groups_of gm u))
       (filter (\<lambda>u. t \<le> int (length (groups_of gm u))) (first_seen (map snd (occurrences gm))))"
  by (simp add: analyze_user_groups_def invert_groups_eq filter_map comp_def case_prod_beta)

section \<open>Inversion: further lemmas\<close>

lemma users_occurrences: "map snd (occurrences gm) = concat (map snd gm)"
  by (induction gm) (auto simp: occurrences_def comp_def)

lemma analyze_user_groups_order:
  "analyze_user_groups gm t =
     map (\<lambda>u. (u, groups_of gm u))
       (filter (\<lambda>u. t \<le> int (length (groups_of gm u))) (first_seen (concat (map snd gm))))"
  by (simp add: analyze_user_groups_eq users_occurrences)

lemma groups_of_not_Nil: "groups_of gm u \<noteq> [] \<longleftrightarrow> u \<in> set (concat (map snd gm))"
proof -
  have "groups_of gm u \<noteq> [] \<longleftrightarrow> u \<in> set (map snd (occurrences gm))"
    by (auto simp: groups_of_def filter_empty_conv)
  then show ?thesis by (simp only: users_occurrences)
qed

lemma count_list_distinct: "distinct xs \<Longrightarrow> x \<in> set xs \<Longrightarrow> count_list xs x = 1"
  by (induction xs) auto

lemma map_of_keyed:
  "map_of (map (\<lambda>u. (u, f u)) xs) u = (if u \<in> set xs then Some (f u) else None)"
  by (induction xs) auto

lemma count_const_map: "count_list (map (\<lambda>_. g') xs) g = (if g' = g then length xs else 0)"
  by (induction xs) auto

lemma length_filter_eq: "length (filter (\<lambda>v. v = u) us) = count_list us u"
  by (induction us) auto

lemma count_groups_of_absent:
  "g \<notin> fst ` set gm \<Longrightarrow> count_list (groups_of gm u) g = 0"
proof (induction gm)
  case Nil
  then show ?case by (simp add: groups_of_def occurrences_def)
next
  case (Cons p gm)
  obtain g' us' where p: "p = (g', us')" by (cases p)
  from Cons.prems have "g' \<noteq> g" and "g \<notin> fst ` set gm" by (auto simp: p)
  with Cons.IH show ?case by (simp add: p groups_of_Cons count_const_map)
qed

lemma count_groups_of:
  "distinct (map fst gm) \<Longrightarrow> (g, us) \<in> set gm \<Longrightarrow> count_list (groups_of gm u) g = count_list us u"
proof (induction gm)
  case Nil
  then show ?case by simp
next
  case (Cons p gm)
  obtain g' us' where p: "p = (g', us')" by (cases p)
  from Cons.prems have fresh: "g' \<notin> fst ` set gm" and dist: "distinct (map fst gm)"
    by (auto simp: p)
  show ?case
  proof (cases "(g, us) = (g', us')")
    case True
    with fresh have "count_list (groups_of gm u) g = 0" by (simp add: count_groups_of_absent)
    with True show ?thesis by (simp add: p groups_of_Cons count_const_map length_filter_eq)
  next
    case False
    with Cons.prems(2) have mem: "(g, us) \<in> set gm" by (auto simp: p)
    with fresh have "g' \<noteq> g" by force
    with Cons.IH[OF dist mem] show ?thesis by (simp add: p groups_of_Cons count_const_map)
  qed
qed

lemma map_of_invert_groups:
  "map_of (invert_groups gm []) u =
     (if u \<in> set (concat (map snd gm)) then Some (groups_of gm u) else None)"
  by (simp only: invert_groups_eq map_of_keyed set_first_seen users_occurrences)

section \<open>Parsing: lemmas\<close>

lemma keys_dict_set:
  "map fst (dict_set d k v) = (if k \<in> set (map fst d) then map fst d else map fst d @ [k])"
proof (induction d)
  case Nil
  then show ?case by simp
next
  case (Cons p d)
  obtain k' v' where p: "p = (k', v')" by (cases p)
  show ?case by (cases "k' = k") (simp_all add: p Cons.IH)
qed

lemma distinct_dict_set: "distinct (map fst d) \<Longrightarrow> distinct (map fst (dict_set d k v))"
  by (simp add: keys_dict_set)

lemma map_of_dict_set: "map_of (dict_set d k v) = (map_of d)(k \<mapsto> v)"
  by (induction d) (auto simp: fun_eq_iff)

lemma parse_line_fst:
  "fst (parse_line raw st) =
     (case fst (parse_line raw ([], [])) of
        [] \<Rightarrow> fst st
      | kv # _ \<Rightarrow> dict_set (fst st) (fst kv) (snd kv))"
  by (simp add: parse_line_def Let_def split: option.splits prod.splits)

lemma distinct_parse_line:
  "distinct (map fst (fst st)) \<Longrightarrow> distinct (map fst (fst (parse_line raw st)))"
  by (simp add: parse_line_fst[of raw st] distinct_dict_set split: list.splits)

lemma distinct_parse_lines:
  "distinct (map fst (fst st)) \<Longrightarrow> distinct (map fst (fst (parse_lines ls st)))"
  by (induction ls arbitrary: st) (simp_all add: distinct_parse_line)

lemma parse_lines_append:
  "parse_lines (xs @ ys) st = parse_lines ys (parse_lines xs st)"
  by (induction xs arbitrary: st) simp_all

lemma parse_line_other:
  "n \<notin> fst ` set (fst (parse_line raw ([], []))) \<Longrightarrow>
   map_of (fst (parse_line raw st)) n = map_of (fst st) n"
  by (cases "fst (parse_line raw ([], []))")
     (auto simp: parse_line_fst[of raw st] map_of_dict_set)

lemma parse_lines_other:
  "\<forall>l\<in>set ls. n \<notin> fst ` set (fst (parse_line l ([], []))) \<Longrightarrow>
   map_of (fst (parse_lines ls st)) n = map_of (fst st) n"
  by (induction ls arbitrary: st) (simp_all add: parse_line_other)

lemma single_entry:
  "distinct (map fst d) \<Longrightarrow> map_of d n = Some v \<Longrightarrow> filter (\<lambda>kv. fst kv = n) d = [(n, v)]"
proof (induction d)
  case Nil
  then show ?case by simp
next
  case (Cons p d)
  obtain k w where p: "p = (k, w)" by (cases p)
  show ?case
  proof (cases "k = n")
    case True
    with Cons.prems have "n \<notin> fst ` set d" and "w = v" by (auto simp: p)
    then have "filter (\<lambda>kv. fst kv = n) d = []" by (auto simp: filter_empty_conv)
    with True \<open>w = v\<close> show ?thesis by (simp add: p)
  next
    case False
    with Cons show ?thesis by (simp add: p)
  qed
qed

lemma split_first_at:
  assumes "c \<notin> set a"
  shows "split_first c (a @ c # b) = Some (a, b)"
proof -
  from assms have "\<forall>x\<in>set a. x \<noteq> c" by blast
  then have "dropWhile (\<lambda>x. x \<noteq> c) (a @ c # b) = c # b"
    and "takeWhile (\<lambda>x. x \<noteq> c) (a @ c # b) = a"
    by (simp_all add: dropWhile_append takeWhile_append)
  then show ?thesis by (simp add: split_first_def)
qed

lemma members_comprehension:
  "concat (map (\<lambda>user. if strip user \<noteq> [] then [strip user] else []) xs)
     = filter (\<lambda>m. m \<noteq> []) (map strip xs)"
  by (induction xs) auto

lemma example_line:
  "parse_lines [''g:alice,, bob ,''] ([], []) = ([(''g'', [''alice'', ''bob''])], [])"
  by code_simp

lemma strip_example_line: "strip ''g:alice,, bob ,\<newline>'' = ''g:alice,, bob ,''" by code_simp

lemma members_example_line: "filter (\<lambda>m. m \<noteq> []) (map strip (split_on (CHR '','') ''alice,, bob ,'')) = [''alice'', ''bob'']"
    by code_simp

lemma example_line_no_comment: "\<not> startswith ''g:alice,, bob ,'' ''#''" by (simp add: startswith_def)


section \<open>The orchestrator: lemmas\<close>

lemma main_parsed:
  assumes "isfile e (group_file a)" and "0 < min_groups a"
    and "open_read e (group_file a) = Lines ls"
  shows "main e a =
     (Return (),
      (write_output e (analyze_user_groups (fst (parse_lines ls ([], []))) (min_groups a))
         (output_arg a))
       \<lparr>logged := snd (parse_lines ls ([], [])) @
          logged (write_output e
            (analyze_user_groups (fst (parse_lines ls ([], []))) (min_groups a)) (output_arg a))\<rparr>)"
  using assms by (simp add: main_def parse_group_file_def Let_def)


section \<open>The example of the source\<close>

lemma parse_groups_txt:
  "parse_lines groups_txt ([], []) =
     ([(''admin'', [''user1'', ''user2'', ''user3'']),
       (''developers'', [''user2'', ''user4'']),
       (''testers'', [''user3'', ''user4'', ''user5'']),
       (''support'', [''user1'', ''user5''])], [])"
  by code_simp

lemma analyze_groups_txt:
  "analyze_user_groups
     [(''admin'', [''user1'', ''user2'', ''user3'']),
      (''developers'', [''user2'', ''user4'']),
      (''testers'', [''user3'', ''user4'', ''user5'']),
      (''support'', [''user1'', ''user5''])] 2 =
     [(''user1'', [''admin'', ''support'']),
      (''user2'', [''admin'', ''developers'']),
      (''user3'', [''admin'', ''testers'']),
      (''user4'', [''developers'', ''testers'']),
      (''user5'', [''testers'', ''support''])]"
  by code_simp

text \<open>
  C1. On a group file with the four lines of the example and the default threshold 2,
  with no output path, \<open>main\<close> returns after printing exactly five report lines: each of
  user1 to user5 with its two groups in the order of the file, rendered as
  \<open>User: <user>, Groups: <groups joined by comma and space>\<close>. The index behind the
  report maps each user to exactly that group list.
\<close>

theorem concrete_scenario:
  assumes "isfile e (group_file a)"
    and "open_read e (group_file a) = Lines groups_txt"
    and "min_groups a = 2"
    and "output_arg a = None"
  shows "analyze_user_groups (fst (parse_lines groups_txt ([], []))) 2 =
           [(''user1'', [''admin'', ''support'']),
            (''user2'', [''admin'', ''developers'']),
            (''user3'', [''admin'', ''testers'']),
            (''user4'', [''developers'', ''testers'']),
            (''user5'', [''testers'', ''support''])]
         \<and> main e a =
           (Return (),
            \<lparr>stdout =
               [''User: user1, Groups: admin, support'',
                ''User: user2, Groups: admin, developers'',
                ''User: user3, Groups: admin, testers'',
                ''User: user4, Groups: developers, testers'',
                ''User: user5, Groups: testers, support''],
             logged = [], file_written = None\<rparr>)"
  using assms
  by (simp add: main_def parse_group_file_def write_output_def
      parse_groups_txt analyze_groups_txt report_line_def)

theorem concrete_scenario_witness:
  "isfile groups_txt_env (group_file default_args)
   \<and> open_read groups_txt_env (group_file default_args) = Lines groups_txt
   \<and> min_groups default_args = 2
   \<and> output_arg default_args = None
   \<and> main groups_txt_env default_args =
       (Return (),
        \<lparr>stdout =
           [''User: user1, Groups: admin, support'',
            ''User: user2, Groups: admin, developers'',
            ''User: user3, Groups: admin, testers'',
            ''User: user4, Groups: developers, testers'',
            ''User: user5, Groups: testers, support''],
         logged = [], file_written = None\<rparr>)"
  using concrete_scenario [of groups_txt_env default_args]
  by (simp add: groups_txt_env_def default_args_def)

section \<open>Round trip at threshold 1\<close>

text \<open>
  C2. At threshold 1 the keys of the result are exactly the users that occur in some
  member list; each of them is a key exactly once, and its group list is, as a multiset,
  the group names of all occurrences of that user, with multiplicity. This holds for
  every mapping, also one with an empty member list.
\<close>

theorem round_trip_threshold_one:
  "set (map fst (analyze_user_groups gm 1)) = (\<Union>(g, us)\<in>set gm. set us)
   \<and> (\<forall>u\<in>(\<Union>(g, us)\<in>set gm. set us).
        count_list (map fst (analyze_user_groups gm 1)) u = 1
        \<and> (\<exists>gs. map_of (analyze_user_groups gm 1) u = Some gs
              \<and> mset gs = image_mset fst (filter_mset (\<lambda>p. snd p = u) (mset (occurrences gm)))))"
proof -
  let ?us = "concat (map snd gm)"
  let ?r = "analyze_user_groups gm 1"
  have all: "filter (\<lambda>u. 1 \<le> int (length (groups_of gm u))) (first_seen ?us) = first_seen ?us"
  proof (rule filter_True, rule ballI)
    fix u assume "u \<in> set (first_seen ?us)"
    then have "groups_of gm u \<noteq> []" by (simp add: set_first_seen groups_of_not_Nil)
    then show "1 \<le> int (length (groups_of gm u))" by (cases "groups_of gm u") auto
  qed
  have r: "?r = map (\<lambda>u. (u, groups_of gm u)) (first_seen ?us)"
    by (simp only: analyze_user_groups_order all)
  have keys: "map fst ?r = first_seen ?us" by (simp add: r comp_def)
  have U: "(\<Union>(g, us)\<in>set gm. set us) = set ?us" by auto
  have "set (map fst ?r) = set ?us" by (simp only: keys set_first_seen)
  moreover have "count_list (map fst ?r) u = 1" if "u \<in> set ?us" for u
    using that by (simp only: keys) (simp add: count_list_distinct distinct_first_seen set_first_seen)
  moreover have "map_of ?r u = Some (groups_of gm u)" if "u \<in> set ?us" for u
    using that by (simp only: r map_of_keyed set_first_seen) simp
  moreover have "mset (groups_of gm u) = image_mset fst (filter_mset (\<lambda>p. snd p = u) (mset (occurrences gm)))" for u
    by (simp add: groups_of_def)
  ultimately show ?thesis unfolding U by blast
qed

theorem round_trip_threshold_one_witness:
  "''alice'' \<in> (\<Union>(g, us)\<in>set small_gm. set us)
   \<and> count_list (map fst (analyze_user_groups small_gm 1)) ''alice'' = 1"
proof -
  have mem: "''alice'' \<in> (\<Union>(g, us)\<in>set small_gm. set us)"
    by (simp add: small_gm_def)
  from round_trip_threshold_one [of small_gm, THEN conjunct2, THEN bspec, OF mem]
  have "count_list (map fst (analyze_user_groups small_gm 1)) ''alice'' = 1"
    by (rule conjunct1)
  with mem show ?thesis by (rule conjI)
qed

section \<open>Threshold monotonicity\<close>

text \<open>
  C3. For thresholds \<open>t1 < t2\<close> the users reported at \<open>t2\<close> are among the users
  reported at \<open>t1\<close>.
\<close>

theorem threshold_monotone:
  assumes "t1 < t2"
  shows "set (map fst (analyze_user_groups gm t2)) \<subseteq> set (map fst (analyze_user_groups gm t1))"
  using assms by (auto simp: analyze_user_groups_def)

theorem threshold_monotone_witness:
  "(1::int) < 2
   \<and> set (map fst (analyze_user_groups small_gm 2)) \<subseteq> set (map fst (analyze_user_groups small_gm 1))"
  using threshold_monotone [of 1 2 small_gm] by simp

section \<open>Malformed lines\<close>



section \<open>Multiplicity\<close>

text \<open>
  C5. In a mapping with distinct group names, a user who stands \<open>k > 1\<close> times in the
  member list of a group has that group's name \<open>k\<close> times in the inverted group list;
  the repeats count for the threshold, so the user is reported at every threshold up to
  \<open>k\<close>, in particular at threshold 2.
\<close>

theorem multiplicity_counts:
  assumes "distinct (map fst gm)" and "(g, us) \<in> set gm"
    and "count_list us u = k" and "1 < k"
  shows "(\<exists>gs. map_of (invert_groups gm []) u = Some gs \<and> count_list gs g = k)
         \<and> (\<forall>t. t \<le> int k \<longrightarrow> u \<in> set (map fst (analyze_user_groups gm t)))
         \<and> u \<in> set (map fst (analyze_user_groups gm 2))"
proof -
  from assms(3,4) have "u \<in> set us" by (auto simp: count_list_0_iff intro: ccontr)
  with assms(2) have mem: "u \<in> set (concat (map snd gm))" by force
  have cnt: "count_list (groups_of gm u) g = k"
    using assms(1-3) by (simp add: count_groups_of)
  have len: "k \<le> length (groups_of gm u)"
    using count_le_length[of "groups_of gm u" g] cnt by simp
  have q: "u \<in> set (map fst (analyze_user_groups gm t))" if "t \<le> int k" for t
  proof -
    from that len have "t \<le> int (length (groups_of gm u))" by simp
    with mem show ?thesis
      by (simp add: analyze_user_groups_order comp_def set_first_seen)
  qed
  from assms(4) have "2 \<le> int k" by simp
  with q mem cnt show ?thesis by (simp add: map_of_invert_groups)
qed

theorem multiplicity_counts_witness:
  "distinct (map fst small_gm)
   \<and> (''ops'', [''alice'', ''bob'', ''alice'']) \<in> set small_gm
   \<and> count_list [''alice'', ''bob'', ''alice''] ''alice'' = 2
   \<and> (1::nat) < 2
   \<and> ''alice'' \<in> set (map fst (analyze_user_groups small_gm 2))"
proof -
  have h1: "distinct (map fst small_gm)" by (simp add: small_gm_def)
  have h2: "(''ops'', [''alice'', ''bob'', ''alice'']) \<in> set small_gm" by (simp add: small_gm_def)
  have h3: "count_list [''alice'', ''bob'', ''alice''] ''alice'' = 2" by simp
  have h4: "(1::nat) < 2" by simp
  from multiplicity_counts [OF h1 h2 h3 h4]
  have "''alice'' \<in> set (map fst (analyze_user_groups small_gm 2))"
    by (elim conjE)
  with h1 h2 h3 h4 show ?thesis by (intro conjI)
qed

section \<open>Duplicate group names\<close>

text \<open>
  C6. When a line of the file parses to the entry \<open>(n, us)\<close> and no later line parses
  to an entry for \<open>n\<close>, the parsed mapping holds \<open>n\<close> exactly once, with the member
  list \<open>us\<close>: member lists of earlier lines for \<open>n\<close> are gone.
\<close>

theorem duplicate_group_last_wins:
  assumes "ls = pre @ l # post"
    and "fst (parse_line l ([], [])) = [(n, us)]"
    and "\<forall>l'\<in>set post. n \<notin> fst ` set (fst (parse_line l' ([], [])))"
  shows "map_of (fst (parse_lines ls ([], []))) n = Some us
         \<and> filter (\<lambda>kv. fst kv = n) (fst (parse_lines ls ([], []))) = [(n, us)]"
proof -
  let ?st = "parse_lines pre ([], [])"
  have split: "parse_lines ls ([], []) = parse_lines post (parse_line l ?st)"
    by (simp add: assms(1) parse_lines_append)
  have "map_of (fst (parse_line l ?st)) n = Some us"
    by (simp add: parse_line_fst[of l ?st] assms(2) map_of_dict_set)
  with assms(3) have m: "map_of (fst (parse_lines ls ([], []))) n = Some us"
    by (simp add: split parse_lines_other)
  have "distinct (map fst (fst (parse_lines ls ([], []))))"
    by (rule distinct_parse_lines) simp
  from single_entry[OF this m] m show ?thesis by simp
qed

theorem duplicate_group_last_wins_witness:
  "dup_txt = [''g:a\<newline>''] @ ''g:c\<newline>'' # [''h:b\<newline>'']
   \<and> fst (parse_line ''g:c\<newline>'' ([], [])) = [(''g'', [''c''])]
   \<and> ''g'' \<notin> fst ` set (fst (parse_line ''h:b\<newline>'' ([], [])))
   \<and> map_of (fst (parse_lines dup_txt ([], []))) ''g'' = Some [''c'']"
proof -
  have h1: "dup_txt = [''g:a\<newline>''] @ ''g:c\<newline>'' # [''h:b\<newline>'']"
    by (simp add: dup_txt_def)
  have h2: "fst (parse_line ''g:c\<newline>'' ([], [])) = [(''g'', [''c''])]" by code_simp
  have b: "fst (parse_line ''h:b\<newline>'' ([], [])) = [(''h'', [''b''])]" by code_simp
  have n: "''g'' \<notin> fst ` set (fst (parse_line ''h:b\<newline>'' ([], [])))"
    by (simp add: b)
  then have h3: "\<forall>l'\<in>set [''h:b\<newline>'']. ''g'' \<notin> fst ` set (fst (parse_line l' ([], [])))"
    by simp
  note m = duplicate_group_last_wins [OF h1 h2 h3, THEN conjunct1]
  show ?thesis
    by (rule conjI [OF h1 conjI [OF h2 conjI [OF n m]]])
qed

section \<open>Empty members\<close>

text \<open>
  C7. The line \<open>g:alice,, bob ,\<close> parses to group \<open>g\<close> with the members \<open>alice\<close> and
  \<open>bob\<close>. In general, for a line that is neither blank nor a comment and whose trimmed
  form is \<open>name\<close>, a colon and \<open>rest\<close>, with no colon in \<open>name\<close>, the parser stores under
  the trimmed name the pieces of \<open>rest\<close> between commas, each trimmed, without those
  that are empty after trimming. The pieces joined by commas are \<open>rest\<close> again; every
  member is non-empty, starts and ends with a character that is not white space, and
  holds no comma.
\<close>

theorem empty_member_filtering:
  "parse_lines [''g:alice,, bob ,''] ([], []) = ([(''g'', [''alice'', ''bob''])], [])
   \<and> (strip raw \<noteq> [] \<and> \<not> startswith (strip raw) ''#''
        \<and> strip raw = name @ CHR '':'' # rest \<and> CHR '':'' \<notin> set name \<longrightarrow>
      parse_line raw (gm, lg) =
        (dict_set gm (strip name)
           (filter (\<lambda>m. m \<noteq> []) (map strip (split_on (CHR '','') rest))), lg)
      \<and> join '','' (split_on (CHR '','') rest) = rest
      \<and> (\<forall>m\<in>set (filter (\<lambda>m. m \<noteq> []) (map strip (split_on (CHR '','') rest))).
            m \<noteq> [] \<and> \<not> is_space (hd m) \<and> \<not> is_space (last m) \<and> CHR '','' \<notin> set m))"
proof -
  have general: "parse_line raw (gm, lg) =
        (dict_set gm (strip name)
           (filter (\<lambda>m. m \<noteq> []) (map strip (split_on (CHR '','') rest))), lg)"
    if "strip raw \<noteq> []" "\<not> startswith (strip raw) ''#''"
      "strip raw = name @ CHR '':'' # rest" "CHR '':'' \<notin> set name"
  proof -
    from that(3,4) have "split_first (CHR '':'') (strip raw) = Some (name, rest)"
      by (simp add: split_first_at)
    with that(1,2) show ?thesis
      by (simp add: parse_line_def Let_def members_comprehension)
  qed
  have members: "m \<noteq> [] \<and> \<not> is_space (hd m) \<and> \<not> is_space (last m) \<and> CHR '','' \<notin> set m"
    if "m \<in> set (filter (\<lambda>m. m \<noteq> []) (map strip (split_on (CHR '','') rest)))" for m
  proof -
    from that obtain p where p: "p \<in> set (split_on (CHR '','') rest)" and m: "m = strip p"
      and ne: "m \<noteq> []" by auto
    from p have "CHR '','' \<notin> set p" by (rule split_on_pieces)
    with set_strip_subset[of p] have "CHR '','' \<notin> set m" by (auto simp: m)
    with ne strip_ends[of p] show ?thesis by (simp add: m)
  qed
  show ?thesis
  proof (intro conjI impI ballI)
    show "parse_lines [''g:alice,, bob ,''] ([], []) = ([(''g'', [''alice'', ''bob''])], [])"
      by (rule example_line)
  next
    assume "strip raw \<noteq> [] \<and> \<not> startswith (strip raw) ''#''
        \<and> strip raw = name @ CHR '':'' # rest \<and> CHR '':'' \<notin> set name"
    then show "parse_line raw (gm, lg) =
        (dict_set gm (strip name)
           (filter (\<lambda>m. m \<noteq> []) (map strip (split_on (CHR '','') rest))), lg)"
      by (elim conjE) (rule general)
  next
    show "join '','' (split_on (CHR '','') rest) = rest"
      by (rule join_split_on)
  next
    fix m assume "m \<in> set (filter (\<lambda>m. m \<noteq> []) (map strip (split_on (CHR '','') rest)))"
    from members[OF this]
    have m: "m \<noteq> [] \<and> \<not> is_space (hd m) \<and> \<not> is_space (last m) \<and> CHR '','' \<notin> set m" .
    from m show "m \<noteq> []" by (elim conjE)
    from m show "\<not> is_space (hd m)" by (elim conjE)
    from m show "\<not> is_space (last m)" by (elim conjE)
    from m show "CHR '','' \<notin> set m" by (elim conjE)
  qed
qed

theorem empty_member_filtering_witness:
  "strip ''g:alice,, bob ,\<newline>'' \<noteq> [] \<and> \<not> startswith (strip ''g:alice,, bob ,\<newline>'') ''#''
   \<and> strip ''g:alice,, bob ,\<newline>'' = ''g'' @ CHR '':'' # ''alice,, bob ,''
   \<and> CHR '':'' \<notin> set ''g''
   \<and> parse_line ''g:alice,, bob ,\<newline>'' ([], []) = ([(''g'', [''alice'', ''bob''])], [])
   \<and> ''alice'' \<in> set (filter (\<lambda>m. m \<noteq> []) (map strip (split_on (CHR '','') ''alice,, bob ,'')))
   \<and> \<not> is_space (hd ''alice'')"
proof -
  have hyp: "strip ''g:alice,, bob ,\<newline>'' \<noteq> [] \<and> \<not> startswith (strip ''g:alice,, bob ,\<newline>'') ''#''
   \<and> strip ''g:alice,, bob ,\<newline>'' = ''g'' @ CHR '':'' # ''alice,, bob ,''
   \<and> CHR '':'' \<notin> set ''g''"
    by (simp add: strip_example_line example_line_no_comment)
  have mem: "''alice'' \<in> set (filter (\<lambda>m. m \<noteq> []) (map strip (split_on (CHR '','') ''alice,, bob ,'')))"
    by (simp only: members_example_line) simp
  have concl: "parse_line ''g:alice,, bob ,\<newline>'' ([], []) =
        (dict_set [] (strip ''g'')
           (filter (\<lambda>m. m \<noteq> []) (map strip (split_on (CHR '','') ''alice,, bob ,''))), [])
      \<and> join '','' (split_on (CHR '','') ''alice,, bob ,'') = ''alice,, bob ,''
      \<and> (\<forall>m\<in>set (filter (\<lambda>m. m \<noteq> []) (map strip (split_on (CHR '','') ''alice,, bob ,''))).
            m \<noteq> [] \<and> \<not> is_space (hd m) \<and> \<not> is_space (last m) \<and> CHR '','' \<notin> set m)"
    by (rule mp [OF conjunct2 [OF empty_member_filtering
            [of "''g:alice,, bob ,\<newline>''" "''g''" "''alice,, bob ,''" "[]" "[]"]] hyp])
  have g: "strip ''g'' = ''g''" by code_simp
  from concl have p: "parse_line ''g:alice,, bob ,\<newline>'' ([], []) = ([(''g'', [''alice'', ''bob''])], [])"
    by (simp only: members_example_line g dict_set.simps)
  from concl have "\<forall>m\<in>set (filter (\<lambda>m. m \<noteq> []) (map strip (split_on (CHR '','') ''alice,, bob ,''))).
            m \<noteq> [] \<and> \<not> is_space (hd m) \<and> \<not> is_space (last m) \<and> CHR '','' \<notin> set m"
    by (elim conjE)
  from bspec [OF this mem] have h: "\<not> is_space (hd ''alice'')" by (elim conjE)
  note h1 = hyp [THEN conjunct1]
    and h2 = hyp [THEN conjunct2, THEN conjunct1]
    and h3 = hyp [THEN conjunct2, THEN conjunct2, THEN conjunct1]
    and h4 = hyp [THEN conjunct2, THEN conjunct2, THEN conjunct2]
  show ?thesis
    by (intro conjI) (rule h1 h2 h3 h4 p mem h)+
qed

section \<open>Fatal failures\<close>

text \<open>
  C8. As the claim is written it fails: a group file that exists and cannot be read
  makes \<open>open\<close> raise \<open>PermissionError\<close>, which the parser does not catch, so the process
  ends on the exception and no error record is logged.
\<close>

theorem unreadable_file_not_logged:
  "isfile unreadable_env (group_file default_args)
   \<and> 0 < min_groups default_args
   \<and> open_read unreadable_env (group_file default_args) = ReadRaises PermissionError
   \<and> fst (main unreadable_env default_args) = Uncaught PermissionError
   \<and> logged (snd (main unreadable_env default_args)) = []"
  by (simp add: unreadable_env_def default_args_def main_def parse_group_file_def quiet_def)

text \<open>
  C8, amended. When the group-file path is not an existing file, or the threshold is not
  positive, or opening the file in the parser raises, the exit status is 1 and nothing is
  printed or written as a report. An error record is logged when the path is not a file,
  the threshold is not positive or the exception is \<open>FileNotFoundError\<close>; any other
  operating-system error leaves \<open>main\<close> uncaught, with no record logged.
\<close>

theorem fatal_failures:
  assumes "\<not> isfile e (group_file a) \<or> min_groups a \<le> 0
           \<or> open_read e (group_file a) = ReadRaises err"
  shows "exit_status (fst (main e a)) = 1
         \<and> stdout (snd (main e a)) = [] \<and> file_written (snd (main e a)) = None
         \<and> (\<not> isfile e (group_file a) \<or> min_groups a \<le> 0 \<or> err = FileNotFoundError \<longrightarrow>
              (\<exists>msg. logged (snd (main e a)) = [(ERROR, msg)]))
         \<and> (isfile e (group_file a) \<and> 0 < min_groups a \<and> err \<noteq> FileNotFoundError \<longrightarrow>
              fst (main e a) = Uncaught err \<and> logged (snd (main e a)) = [])"
proof (cases "\<not> isfile e (group_file a) \<or> min_groups a \<le> 0")
  case True
  then show ?thesis
    by (auto simp: main_def exit_status_def quiet_def)
next
  case False
  with assms have r: "open_read e (group_file a) = ReadRaises err" by blast
  from False show ?thesis
    by (cases err) (simp_all add: main_def parse_group_file_def r exit_status_def quiet_def)
qed

theorem fatal_failures_witness:
  "\<not> isfile missing_env (group_file default_args)
   \<and> exit_status (fst (main missing_env default_args)) = 1
   \<and> stdout (snd (main missing_env default_args)) = []
   \<and> (\<exists>msg. logged (snd (main missing_env default_args)) = [(ERROR, msg)])
   \<and> (isfile unreadable_env (group_file default_args) \<and> 0 < min_groups default_args
        \<and> PermissionError \<noteq> FileNotFoundError)
   \<and> exit_status (fst (main unreadable_env default_args)) = 1
   \<and> fst (main unreadable_env default_args) = Uncaught PermissionError"
proof -
  have nf: "\<not> isfile missing_env (group_file default_args)"
    by (simp add: missing_env_def)
  then have h: "\<not> isfile missing_env (group_file default_args) \<or> min_groups default_args \<le> 0
     \<or> open_read missing_env (group_file default_args) = ReadRaises FileNotFoundError"
    by (rule disjI1)
  have h': "\<not> isfile unreadable_env (group_file default_args) \<or> min_groups default_args \<le> 0
     \<or> open_read unreadable_env (group_file default_args) = ReadRaises PermissionError"
    by (simp add: unreadable_env_def)
  have g: "isfile unreadable_env (group_file default_args) \<and> 0 < min_groups default_args
        \<and> PermissionError \<noteq> FileNotFoundError"
    by (simp add: unreadable_env_def default_args_def)
  have k: "\<not> isfile missing_env (group_file default_args) \<or> min_groups default_args \<le> 0
     \<or> FileNotFoundError = FileNotFoundError"
    by simp
  note a = fatal_failures [OF h, THEN conjunct1]
    and b = fatal_failures [OF h, THEN conjunct2, THEN conjunct1]
    and l = fatal_failures [OF h, THEN conjunct2, THEN conjunct2, THEN conjunct2, THEN conjunct1,
              THEN mp, OF k]
    and c = fatal_failures [OF h', THEN conjunct1]
    and u = fatal_failures [OF h', THEN conjunct2, THEN conjunct2, THEN conjunct2, THEN conjunct2,
              THEN mp, OF g, THEN conjunct1]
  show ?thesis
    by (rule conjI [OF nf conjI [OF a conjI [OF b conjI [OF l conjI [OF g conjI [OF c u]]]]]])
qed

section \<open>Output write failure\<close>

text \<open>
  C9. As the claim is written it fails: when the output path given is the empty string,
  which no file can be opened under, the writer does not try to open it. The path counts
  as absent, the report is printed, and no error is logged.
\<close>

theorem empty_output_path_prints:
  "isfile (file_env groups_txt (WriteRaises ''No such file or directory''))
     (group_file empty_out_args)
   \<and> 0 < min_groups empty_out_args
   \<and> open_read (file_env groups_txt (WriteRaises ''No such file or directory''))
       (group_file empty_out_args) = Lines groups_txt
   \<and> output_arg empty_out_args = Some []
   \<and> open_write (file_env groups_txt (WriteRaises ''No such file or directory'')) []
       (map report_line
         (analyze_user_groups (fst (parse_lines groups_txt ([], []))) (min_groups empty_out_args)))
       = WriteRaises ''No such file or directory''
   \<and> fst (main (file_env groups_txt (WriteRaises ''No such file or directory'')) empty_out_args)
       = Return ()
   \<and> stdout (snd (main (file_env groups_txt (WriteRaises ''No such file or directory''))
         empty_out_args)) =
       [''User: user1, Groups: admin, support'',
        ''User: user2, Groups: admin, developers'',
        ''User: user3, Groups: admin, testers'',
        ''User: user4, Groups: developers, testers'',
        ''User: user5, Groups: testers, support'']
   \<and> logged (snd (main (file_env groups_txt (WriteRaises ''No such file or directory''))
         empty_out_args)) = []"
  by (simp add: file_env_def empty_out_args_def main_def parse_group_file_def write_output_def
      parse_groups_txt analyze_groups_txt report_line_def)

text \<open>
  C9, amended. When parsing succeeds, the output path given is not the empty string and
  opening or writing the report file raises an operating-system error, the writer logs
  one error record carrying the exception's text and does not raise; nothing is printed,
  no report file is written to the end, and \<open>main\<close> returns with exit status 0. What a
  failed write leaves in the file is not stated.
\<close>

theorem output_write_failure_non_fatal:
  assumes "isfile e (group_file a)" and "0 < min_groups a"
    and "open_read e (group_file a) = Lines ls"
    and "output_arg a = Some path" and "path \<noteq> []"
    and "open_write e path
           (map report_line (analyze_user_groups (fst (parse_lines ls ([], []))) (min_groups a)))
         = WriteRaises msg"
  shows "fst (main e a) = Return () \<and> exit_status (fst (main e a)) = 0
         \<and> stdout (snd (main e a)) = [] \<and> file_written (snd (main e a)) = None
         \<and> logged (snd (main e a)) =
             snd (parse_lines ls ([], [])) @ [(ERROR, ''Error writing to output file: '' @ msg)]"
  using assms(4-6)
  by (simp add: main_parsed[OF assms(1-3)] write_output_def exit_status_def)

theorem output_write_failure_non_fatal_witness:
  "isfile (file_env groups_txt (WriteRaises ''No space left on device'')) (group_file out_args)
   \<and> 0 < min_groups out_args
   \<and> open_read (file_env groups_txt (WriteRaises ''No space left on device'')) (group_file out_args)
       = Lines groups_txt
   \<and> output_arg out_args = Some ''report.txt'' \<and> ''report.txt'' \<noteq> []
   \<and> exit_status (fst (main (file_env groups_txt (WriteRaises ''No space left on device'')) out_args)) = 0
   \<and> stdout (snd (main (file_env groups_txt (WriteRaises ''No space left on device'')) out_args)) = []
   \<and> logged (snd (main (file_env groups_txt (WriteRaises ''No space left on device'')) out_args)) =
       [(ERROR, ''Error writing to output file: No space left on device'')]"
proof -
  let ?e = "file_env groups_txt (WriteRaises ''No space left on device'')"
  have h1: "isfile ?e (group_file out_args)" by (simp add: file_env_def)
  have h2: "0 < min_groups out_args" by (simp add: out_args_def)
  have h3: "open_read ?e (group_file out_args) = Lines groups_txt" by (simp add: file_env_def)
  have h4: "output_arg out_args = Some ''report.txt''" by (simp add: out_args_def)
  have h5: "''report.txt'' \<noteq> []" by simp
  have h6: "open_write ?e ''report.txt''
           (map report_line (analyze_user_groups (fst (parse_lines groups_txt ([], []))) (min_groups out_args)))
         = WriteRaises ''No space left on device''" by (simp add: file_env_def)
  note T = output_write_failure_non_fatal [OF h1 h2 h3 h4 h5 h6]
  from T have x: "exit_status (fst (main ?e out_args)) = 0" by (elim conjE)
  from T have s: "stdout (snd (main ?e out_args)) = []" by (elim conjE)
  from T have l: "logged (snd (main ?e out_args)) =
       [(ERROR, ''Error writing to output file: No space left on device'')]"
    by (simp add: parse_groups_txt)
  from h1 h2 h3 h4 h5 x s l show ?thesis by (intro conjI)
qed

section \<open>User order\<close>



end
